theory Spec2Isabelle
  imports Main "HOL-Library.AList" "HOL-Library.Sublist"
begin

section \<open>Texts on the wire, JSON values, runtime errors\<close>

text \<open>
  The backend (\<^verbatim>\<open>pubsub/backend/src/index.ts\<close>) and the worker
  (\<^verbatim>\<open>pubsub/worker/src/index.ts\<close>) exchange JSON texts through two Redis lists and over
  WebSocket frames. \<^verbatim>\<open>JSON.parse\<close> and \<^verbatim>\<open>JSON.stringify\<close> belong to the runtime, so a
  text is represented by what \<^verbatim>\<open>JSON.parse\<close> makes of it: a text that is not JSON, or the
  value it denotes. The payload types of the source declare every property a
  \<^verbatim>\<open>string\<close>; an object is therefore an association list from property names to strings,
  and reading a property that is not there yields \<^verbatim>\<open>undefined\<close>, written \<open>None\<close>.
  \<open>JOther\<close> stands for the JSON values that are neither \<^verbatim>\<open>null\<close> nor an object
  (numbers, booleans, strings, arrays): none of them has one of the properties the code
  reads, so every read yields \<^verbatim>\<open>undefined\<close>.
\<close>

type_synonym js_object = "(string \<times> string) list"

datatype json = JNull | JObject js_object | JOther string

datatype wire = NotJSON string | JSON json

datatype error = SyntaxError | TypeError | BrokerError

definition JSON_parse :: "wire \<Rightarrow> error + json" where
  "JSON_parse t = (case t of NotJSON _ \<Rightarrow> Inl SyntaxError | JSON j \<Rightarrow> Inr j)"

definition JSON_stringify :: "json \<Rightarrow> wire" where
  "JSON_stringify j = JSON j"

text \<open>\<^verbatim>\<open>v.k\<close>: reading a property of \<^verbatim>\<open>null\<close> throws a TypeError.\<close>

definition property :: "json \<Rightarrow> string \<Rightarrow> error + string option" where
  "property j k =
     (case j of
        JNull \<Rightarrow> Inl TypeError
      | JObject kvs \<Rightarrow> Inr (map_of kvs k)
      | JOther _ \<Rightarrow> Inr None)"

text \<open>
  An object literal \<^verbatim>\<open>{k1: v1, ...}\<close> as \<^verbatim>\<open>JSON.stringify\<close> writes it: a property whose
  value is \<^verbatim>\<open>undefined\<close> is left out.
\<close>

fun js_literal :: "(string \<times> string option) list \<Rightarrow> js_object" where
  "js_literal [] = []"
| "js_literal ((k, None) # kvs) = js_literal kvs"
| "js_literal ((k, Some v) # kvs) = (k, v) # js_literal kvs"

text \<open>\<^verbatim>\<open>!v\<close> for a string or \<^verbatim>\<open>undefined\<close>: true for \<^verbatim>\<open>undefined\<close> and for the empty string.\<close>

definition falsy :: "string option \<Rightarrow> bool" where
  "falsy v = (case v of None \<Rightarrow> True | Some s \<Rightarrow> s = [])"

section \<open>The Redis lists\<close>

text \<open>
  \<^verbatim>\<open>rPush\<close> appends at the tail, \<^verbatim>\<open>blPop\<close> takes the head. A write to a broker that is
  not reachable rejects and leaves the list as it is. \<^verbatim>\<open>blPop\<close> with timeout 0 blocks on
  an empty list: \<open>None\<close> stands for the caller still waiting.
\<close>

type_synonym redis_list = "wire list"

definition rPush :: "bool \<Rightarrow> redis_list \<Rightarrow> wire \<Rightarrow> error + redis_list" where
  "rPush up q x = (if up then Inr (q @ [x]) else Inl BrokerError)"

definition blPop :: "redis_list \<Rightarrow> (wire \<times> redis_list) option" where
  "blPop q = (case q of [] \<Rightarrow> None | x # q' \<Rightarrow> Some (x, q'))"

section \<open>The connection registry \<^verbatim>\<open>wsClients\<close>\<close>

text \<open>
  \<^verbatim>\<open>new Map<string, WebSocket>()\<close>: entries in insertion order, one per key. A connection
  is the identity of its \<^verbatim>\<open>WebSocket\<close> object. The key of an entry is whatever
  \<^verbatim>\<open>msg.userId\<close> was, \<^verbatim>\<open>undefined\<close> included.
\<close>

type_synonym conn = nat

type_synonym registry = "(string option \<times> conn) list"

definition Map_get :: "registry \<Rightarrow> string option \<Rightarrow> conn option" where
  "Map_get m k = map_of m k"

definition Map_set :: "string option \<Rightarrow> conn \<Rightarrow> registry \<Rightarrow> registry" where
  "Map_set k v m = AList.update k v m"

definition Map_delete :: "string option \<Rightarrow> registry \<Rightarrow> registry" where
  "Map_delete k m = AList.delete k m"

text \<open>
  \<^verbatim>\<open>m.forEach(f)\<close> visits the entries in insertion order and calls \<^verbatim>\<open>f(value, key)\<close> on
  the live map: an entry deleted before it is reached is skipped, and one whose value
  changed is visited with its current value. (A callback that adds entries would have
  them visited too; the only callback of this program deletes.)
\<close>

fun forEach_from ::
  "(conn \<Rightarrow> string option \<Rightarrow> registry \<Rightarrow> registry) \<Rightarrow> registry \<Rightarrow> registry \<Rightarrow> registry" where
  "forEach_from f [] m = m"
| "forEach_from f ((k, _) # pending) m =
     (case map_of m k of
        None \<Rightarrow> forEach_from f pending m
      | Some v \<Rightarrow> forEach_from f pending (f v k m))"

definition Map_forEach ::
  "(conn \<Rightarrow> string option \<Rightarrow> registry \<Rightarrow> registry) \<Rightarrow> registry \<Rightarrow> registry" where
  "Map_forEach f m = forEach_from f m m"

text \<open>
  \<^verbatim>\<open>ws.on('message', ...)\<close>: the handler of connection \<open>ws\<close>. It has no \<^verbatim>\<open>try\<close>: what
  \<^verbatim>\<open>JSON.parse\<close> or a property read throws leaves the handler (\<open>Inl\<close>).
\<close>

definition on_message :: "conn \<Rightarrow> wire \<Rightarrow> registry \<Rightarrow> error + registry" where
  "on_message ws data m =
     (case JSON_parse data of
        Inl e \<Rightarrow> Inl e
      | Inr msg \<Rightarrow>
          (case property msg ''type'' of
             Inl e \<Rightarrow> Inl e
           | Inr t \<Rightarrow>
               if t = Some ''register''
               then (case property msg ''userId'' of
                       Inl e \<Rightarrow> Inl e
                     | Inr uid \<Rightarrow> Inr (Map_set uid ws m))
               else Inr m))"

text \<open>\<^verbatim>\<open>ws.on('close', ...)\<close>: deletes every entry whose value is \<open>ws\<close>.\<close>

definition on_close :: "conn \<Rightarrow> registry \<Rightarrow> registry" where
  "on_close ws m =
     Map_forEach (\<lambda>client userId m'. if client = ws then Map_delete userId m' else m') m"

section \<open>The submission route \<^verbatim>\<open>POST /submit\<close>\<close>

text \<open>
  The response: its HTTP status (200 when the handler sets none) and the \<^verbatim>\<open>message\<close> of
  its JSON body. \<open>check_mark\<close> is the UTF-8 encoding of U+2705, which the source writes
  in its messages.
\<close>

record response =
  status :: nat
  message :: string

definition check_mark :: string where
  "check_mark = [CHR 0xE2, CHR 0x9C, CHR 0x85]"

text \<open>
  The body of the handler's \<^verbatim>\<open>try\<close>, for a request body \<open>payload\<close> (an object:
  \<^verbatim>\<open>express.json()\<close> hands over nothing else), with the broker reachable or not (\<open>up\<close>)
  and the list \<^verbatim>\<open>problems\<close> holding \<open>q\<close>; then the handler with its \<^verbatim>\<open>catch\<close>.
\<close>

definition submit_try :: "bool \<Rightarrow> js_object \<Rightarrow> redis_list \<Rightarrow> error + response \<times> redis_list" where
  "submit_try up payload q =
     (if falsy (map_of payload ''userId'') \<or> falsy (map_of payload ''username'')
         \<or> falsy (map_of payload ''problemTd'')
      then Inr (\<lparr>status = 400, message = ''Missing fields''\<rparr>, q)
      else (case rPush up q (JSON_stringify (JObject payload)) of
              Inl e \<Rightarrow> Inl e
            | Inr q' \<Rightarrow> Inr (\<lparr>status = 200, message = check_mark @ '' Submitted''\<rparr>, q')))"

definition submit :: "bool \<Rightarrow> js_object \<Rightarrow> redis_list \<Rightarrow> response \<times> redis_list" where
  "submit up payload q =
     (case submit_try up payload q of
        Inl e \<Rightarrow> (\<lparr>status = 500, message = ''Server error''\<rparr>, q)
      | Inr r \<Rightarrow> r)"

section \<open>Routing one result\<close>

datatype ready_state = CONNECTING | OPEN | CLOSING | CLOSED

text \<open>
  The body of \<^verbatim>\<open>listenForResults\<close> after \<^verbatim>\<open>blPop\<close> returned \<open>element\<close>: the frames it
  sends, each with the connection it is sent on.
\<close>

definition route_result ::
  "(conn \<Rightarrow> ready_state) \<Rightarrow> registry \<Rightarrow> wire \<Rightarrow> error + (conn \<times> wire) list" where
  "route_result state_of m element =
     (case JSON_parse element of
        Inl e \<Rightarrow> Inl e
      | Inr result \<Rightarrow>
          (case property result ''userId'' of
             Inl e \<Rightarrow> Inl e
           | Inr uid \<Rightarrow>
               (case Map_get m uid of
                  None \<Rightarrow> Inr []
                | Some ws \<Rightarrow>
                    if state_of ws = OPEN then Inr [(ws, JSON_stringify result)] else Inr [])))"

section \<open>Executing one job\<close>

text \<open>
  The body of the worker's loop after \<^verbatim>\<open>blPop\<close> returned \<open>element\<close>, with the list
  \<^verbatim>\<open>results\<close> holding \<open>rq\<close>. The loop has no \<^verbatim>\<open>try\<close>.
\<close>

definition process_job :: "bool \<Rightarrow> wire \<Rightarrow> redis_list \<Rightarrow> error + redis_list" where
  "process_job up element rq =
     (case JSON_parse element of
        Inl e \<Rightarrow> Inl e
      | Inr payload \<Rightarrow>
          (case property payload ''username'' of
             Inl e \<Rightarrow> Inl e
           | Inr username \<Rightarrow>
               (case property payload ''problemTd'' of
                  Inl e \<Rightarrow> Inl e
                | Inr problemTd \<Rightarrow>
                    (case property payload ''userId'' of
                       Inl e \<Rightarrow> Inl e
                     | Inr userId \<Rightarrow>
                         rPush up rq
                           (JSON_stringify (JObject (js_literal
                              [(''userId'', userId),
                               (''username'', username),
                               (''problemTd'', problemTd),
                               (''status'', Some (''Accepted '' @ check_mark))])))))))"

section \<open>The system: both processes and the broker\<close>

text \<open>
  A process runs until something it does not catch is thrown: an exception leaving an
  event handler, or the rejection of a promise nobody awaits (\<^verbatim>\<open>main()\<close>,
  \<^verbatim>\<open>listenForResults()\<close>), ends the loop it came from.
\<close>

datatype process = Running | Crashed error

record system =
  wsClients :: registry
  readyState :: "conn \<Rightarrow> ready_state"
  problems :: redis_list
  results :: redis_list
  redis_up :: bool
  backend :: process
  worker :: process

text \<open>
  What an outside observer sees: a request with its response, a job leaving
  \<^verbatim>\<open>problems\<close>, a frame sent on a connection.
\<close>

datatype obs = Responded js_object response | Dequeued wire | Sent conn wire

text \<open>
  One pass through \<^verbatim>\<open>listenForResults\<close>; \<open>None\<close> while \<^verbatim>\<open>blPop\<close> waits. Then the function
  itself, which calls itself after each result until the list is empty or it throws.
\<close>

definition route_next :: "system \<Rightarrow> (obs list \<times> system) option" where
  "route_next s =
     (case blPop (results s) of
        None \<Rightarrow> None
      | Some (element, q) \<Rightarrow>
          Some (case route_result (readyState s) (wsClients s) element of
                  Inl e \<Rightarrow> ([], s\<lparr>results := q, backend := Crashed e\<rparr>)
                | Inr out \<Rightarrow> (map (\<lambda>(c, w). Sent c w) out, s\<lparr>results := q\<rparr>)))"

function listenForResults :: "system \<Rightarrow> obs list \<times> system" where
  "listenForResults s =
     (case route_next s of
        None \<Rightarrow> ([], s)
      | Some (os, s') \<Rightarrow>
          if backend s' = Running
          then (case listenForResults s' of (os', s'') \<Rightarrow> (os @ os', s''))
          else (os, s'))"
  by pat_completeness auto
termination
  by (relation "measure (\<lambda>s. length (results s))")
     (auto simp: route_next_def blPop_def split: list.splits sum.splits)

declare listenForResults.simps [simp del]

text \<open>One pass through the worker's \<^verbatim>\<open>while (true)\<close>, and the loop.\<close>

definition work_next :: "system \<Rightarrow> (obs list \<times> system) option" where
  "work_next s =
     (case blPop (problems s) of
        None \<Rightarrow> None
      | Some (element, q) \<Rightarrow>
          Some ([Dequeued element],
                case process_job (redis_up s) element (results s) of
                  Inl e \<Rightarrow> s\<lparr>problems := q, worker := Crashed e\<rparr>
                | Inr rq \<Rightarrow> s\<lparr>problems := q, results := rq\<rparr>))"

function main_loop :: "system \<Rightarrow> obs list \<times> system" where
  "main_loop s =
     (case work_next s of
        None \<Rightarrow> ([], s)
      | Some (os, s') \<Rightarrow>
          if worker s' = Running
          then (case main_loop s' of (os', s'') \<Rightarrow> (os @ os', s''))
          else (os, s'))"
  by pat_completeness auto
termination
  by (relation "measure (\<lambda>s. length (problems s))")
     (auto simp: work_next_def blPop_def split: list.splits sum.splits)

declare main_loop.simps [simp del]

text \<open>
  The events of the system, in any interleaving: a request to \<^verbatim>\<open>/submit\<close>, a frame
  arriving on a connection, the \<^verbatim>\<open>close\<close> event of a connection (its socket is
  \<^verbatim>\<open>CLOSED\<close> by then), a socket changing state with no handler involved, the broker
  going down or coming back, one pass of the router, one pass of the worker. A process
  that has crashed handles nothing.
\<close>

datatype event =
    Post js_object
  | Message conn wire
  | Close conn
  | Transport conn ready_state
  | Broker bool
  | Route
  | Work

fun step :: "event \<Rightarrow> system \<Rightarrow> obs list \<times> system" where
  "step (Post payload) s =
     (if backend s = Running
      then (case submit (redis_up s) payload (problems s) of
              (r, q) \<Rightarrow> ([Responded payload r], s\<lparr>problems := q\<rparr>))
      else ([], s))"
| "step (Message c data) s =
     (if backend s = Running
      then (case on_message c data (wsClients s) of
              Inl e \<Rightarrow> ([], s\<lparr>backend := Crashed e\<rparr>)
            | Inr m \<Rightarrow> ([], s\<lparr>wsClients := m\<rparr>))
      else ([], s))"
| "step (Close c) s =
     (if backend s = Running
      then ([], s\<lparr>readyState := (readyState s)(c := CLOSED),
                   wsClients := on_close c (wsClients s)\<rparr>)
      else ([], s))"
| "step (Transport c st) s = ([], s\<lparr>readyState := (readyState s)(c := st)\<rparr>)"
| "step (Broker b) s = ([], s\<lparr>redis_up := b\<rparr>)"
| "step Route s =
     (if backend s = Running
      then (case route_next s of None \<Rightarrow> ([], s) | Some r \<Rightarrow> r)
      else ([], s))"
| "step Work s =
     (if worker s = Running
      then (case work_next s of None \<Rightarrow> ([], s) | Some r \<Rightarrow> r)
      else ([], s))"

fun run :: "event list \<Rightarrow> system \<Rightarrow> obs list \<times> system" where
  "run [] s = ([], s)"
| "run (e # es) s =
     (case step e s of (os, s') \<Rightarrow> (case run es s' of (os', s'') \<Rightarrow> (os @ os', s'')))"

section \<open>Reading a run\<close>

text \<open>
  The jobs a run took from \<^verbatim>\<open>problems\<close>, in the order the worker's \<^verbatim>\<open>blPop\<close> returned
  them, and the jobs it put there, in the order \<^verbatim>\<open>/submit\<close> acknowledged them (the
  handler answers 200 exactly when its \<^verbatim>\<open>rPush\<close> went through).
\<close>

fun dequeued :: "obs list \<Rightarrow> wire list" where
  "dequeued [] = []"
| "dequeued (Dequeued x # os) = x # dequeued os"
| "dequeued (_ # os) = dequeued os"

fun enqueued :: "obs list \<Rightarrow> wire list" where
  "enqueued [] = []"
| "enqueued (Responded payload r # os) =
     (if status r = 200 then JSON_stringify (JObject payload) # enqueued os else enqueued os)"
| "enqueued (_ # os) = enqueued os"

text \<open>
  \<open>registers uid e\<close>: the event is a frame that registers its connection under \<open>uid\<close>.
  \<open>current uid c s\<close>: the registry holds one entry per key, and \<open>uid\<close> is mapped to
  \<open>c\<close> or to nothing.
\<close>

definition registers :: "string option \<Rightarrow> event \<Rightarrow> bool" where
  "registers uid e =
     (case e of
        Message c data \<Rightarrow>
          (case JSON_parse data of
             Inl _ \<Rightarrow> False
           | Inr msg \<Rightarrow>
               property msg ''type'' = Inr (Some ''register'') \<and> property msg ''userId'' = Inr uid)
      | _ \<Rightarrow> False)"

definition current :: "string option \<Rightarrow> conn \<Rightarrow> system \<Rightarrow> bool" where
  "current uid c s \<longleftrightarrow>
     distinct (map fst (wsClients s))
     \<and> (Map_get (wsClients s) uid = None \<or> Map_get (wsClients s) uid = Some c)"

text \<open>
  The system once both processes have started against an empty broker: nothing
  registered, nothing queued, every socket open.
\<close>

definition started :: system where
  "started = \<lparr>wsClients = [], readyState = (\<lambda>_. OPEN), problems = [], results = [],
               redis_up = True, backend = Running, worker = Running\<rparr>"

section \<open>The registry: lookups after a close\<close>

lemma forEach_from_close:
  "distinct (map fst (pre @ pending)) \<Longrightarrow>
   forEach_from (\<lambda>client userId m'. if client = ws then Map_delete userId m' else m')
     pending (pre @ pending)
   = pre @ filter (\<lambda>e. snd e \<noteq> ws) pending"
proof (induction pending arbitrary: pre)
  case Nil
  then show ?case by simp
next
  case (Cons e pending)
  obtain k v where e: "e = (k, v)" by (cases e)
  from Cons.prems e have k_pre: "k \<notin> fst ` set pre" and k_pend: "k \<notin> fst ` set pending"
    and d1: "distinct (map fst (pre @ pending))"
    and d2: "distinct (map fst ((pre @ [(k, v)]) @ pending))"
    by auto
  have "map_of pre k = None"
    using k_pre by (simp add: map_of_eq_None_iff)
  then have look: "map_of (pre @ (k, v) # pending) k = Some v"
    by (simp add: map_add_def)
  show ?case
  proof (cases "v = ws")
    case True
    have "AList.delete k pre = pre" and "AList.delete k pending = pending"
      using k_pre k_pend by simp_all
    then have del: "Map_delete k (pre @ (k, v) # pending) = pre @ pending"
      by (simp add: Map_delete_def AList.delete_eq)
    show ?thesis using Cons.IH [OF d1] True e look del by simp
  next
    case False
    show ?thesis using Cons.IH [OF d2] False e look by simp
  qed
qed

lemma on_close_filter:
  "distinct (map fst m) \<Longrightarrow> on_close ws m = filter (\<lambda>e. snd e \<noteq> ws) m"
  using forEach_from_close [of "[]" m ws] by (simp add: on_close_def Map_forEach_def)

lemma map_of_filter_snd:
  "distinct (map fst m) \<Longrightarrow>
   map_of (filter (\<lambda>e. snd e \<noteq> c) m) k = (if map_of m k = Some c then None else map_of m k)"
proof (induction m)
  case Nil
  then show ?case by simp
next
  case (Cons e m)
  obtain k' v where e: "e = (k', v)" by (cases e)
  from Cons.prems e have fresh: "k' \<notin> fst ` set m" and d: "distinct (map fst m)"
    by auto
  have none: "map_of (filter (\<lambda>e. snd e \<noteq> c) m) k' = None"
    using fresh by (auto simp add: map_of_eq_None_iff)
  have none': "map_of m k' = None"
    using fresh by (simp add: map_of_eq_None_iff)
  show ?case
  proof (cases "k = k'")
    case True
    then show ?thesis using e none none' by simp
  next
    case False
    then show ?thesis using e Cons.IH [OF d] by simp
  qed
qed

lemma Map_get_on_close:
  "distinct (map fst m) \<Longrightarrow>
   Map_get (on_close c m) k = (if Map_get m k = Some c then None else Map_get m k)"
  by (simp add: on_close_filter Map_get_def map_of_filter_snd)

lemma distinct_on_close:
  "distinct (map fst m) \<Longrightarrow> distinct (map fst (on_close c m))"
  by (simp add: on_close_filter distinct_map_filter)

lemma distinct_Map_set:
  "distinct (map fst m) \<Longrightarrow> distinct (map fst (Map_set k v m))"
  by (simp add: Map_set_def distinct_update)

lemma Map_get_Map_set:
  "Map_get (Map_set k v m) k' = (if k' = k then Some v else Map_get m k')"
  by (simp add: Map_get_def Map_set_def update_conv')

text \<open>
  C3. The close handler removes an entry only when its value is the closing
  connection. For a registry with one entry per identity (which a \<^verbatim>\<open>Map\<close> is): an entry
  whose value is another connection is still looked up after the close of \<open>old\<close>; in
  particular, when \<open>old\<close> registered an identity and \<open>newer\<close> registered the same identity
  after it, the close of \<open>old\<close> leaves the identity mapped to \<open>newer\<close>.
\<close>

theorem close_leaves_superseding_entry:
  assumes "distinct (map fst m)" and "newer \<noteq> old"
  shows "(Map_get m uid = Some newer \<longrightarrow> Map_get (on_close old m) uid = Some newer)
       \<and> Map_get (on_close old (Map_set uid newer (Map_set uid old m))) uid = Some newer
       \<and> (\<forall>k. Map_get (on_close old m) k \<noteq> Map_get m k \<longrightarrow> Map_get m k = Some old)"
proof -
  have d: "distinct (map fst (Map_set uid newer (Map_set uid old m)))"
    using assms(1) by (simp add: distinct_Map_set)
  have "Map_get (Map_set uid newer (Map_set uid old m)) uid = Some newer"
    by (simp add: Map_get_Map_set)
  then have "Map_get (on_close old (Map_set uid newer (Map_set uid old m))) uid = Some newer"
    using assms(2) by (simp add: Map_get_on_close [OF d])
  then show ?thesis
    using assms by (simp add: Map_get_on_close)
qed

theorem close_leaves_superseding_entry_witness:
  "Map_get (on_close 1 [(Some ''u1'', 2), (Some ''u2'', 1)]) (Some ''u1'') = Some 2
   \<and> Map_get (on_close 1 (Map_set (Some ''u1'') 2 (Map_set (Some ''u1'') 1 []))) (Some ''u1'')
       = Some 2"
  using close_leaves_superseding_entry
    [of "[(Some ''u1'', 2), (Some ''u2'', 1)]" 2 1 "Some ''u1''"]
    close_leaves_superseding_entry [of "[]" 2 1 "Some ''u1''"]
  by (simp add: Map_get_def)

text \<open>
  C10. After the close handler ran for a connection \<open>c\<close>, no identity of the registry
  maps to \<open>c\<close>: every entry whose value is \<open>c\<close> is gone, under however many identities
  \<open>c\<close> was registered, and every entry whose value is another connection is still there,
  in the same order.
\<close>

theorem close_removes_every_entry_of_connection:
  assumes "distinct (map fst m)"
  shows "(\<forall>k. Map_get (on_close c m) k \<noteq> Some c)
       \<and> c \<notin> snd ` set (on_close c m)
       \<and> (\<forall>k c'. c' \<noteq> c \<and> Map_get m k = Some c' \<longrightarrow> Map_get (on_close c m) k = Some c')
       \<and> on_close c m = filter (\<lambda>e. snd e \<noteq> c) m"
proof -
  have gone: "\<forall>k. Map_get (on_close c m) k \<noteq> Some c"
    using assms by (simp add: Map_get_on_close)
  have kept: "\<forall>k c'. c' \<noteq> c \<and> Map_get m k = Some c' \<longrightarrow> Map_get (on_close c m) k = Some c'"
    using assms by (simp add: Map_get_on_close)
  have shape: "on_close c m = filter (\<lambda>e. snd e \<noteq> c) m"
    using assms by (rule on_close_filter)
  have "c \<notin> snd ` set (filter (\<lambda>e. snd e \<noteq> c) m)"
    by auto
  with gone kept shape show ?thesis
    by simp
qed

theorem close_removes_every_entry_of_connection_witness:
  "on_close 1 [(Some ''u1'', 1), (Some ''u2'', 2), (Some ''u3'', 1)] = [(Some ''u2'', 2)]
   \<and> Map_get (on_close 1 [(Some ''u1'', 1), (Some ''u2'', 2), (Some ''u3'', 1)]) (Some ''u3'')
       = None"
  using close_removes_every_entry_of_connection
    [of "[(Some ''u1'', 1), (Some ''u2'', 2), (Some ''u3'', 1)]" 1]
  by (simp add: Map_get_def)

section \<open>Registration\<close>

lemma distinct_on_message:
  "distinct (map fst m) \<Longrightarrow> on_message c data m = Inr m' \<Longrightarrow> distinct (map fst m')"
  by (auto simp: on_message_def distinct_Map_set split: sum.splits if_splits)

lemma on_message_other:
  "\<not> registers uid (Message c data) \<Longrightarrow> on_message c data m = Inr m' \<Longrightarrow>
   Map_get m' uid = Map_get m uid"
  by (auto simp: on_message_def registers_def Map_get_Map_set split: sum.splits if_splits)

lemma route_next_registry:
  "route_next s = Some (os, s') \<Longrightarrow> wsClients s' = wsClients s"
  by (auto simp: route_next_def blPop_def split: list.splits sum.splits)

lemma work_next_registry:
  "work_next s = Some (os, s') \<Longrightarrow> wsClients s' = wsClients s"
  by (auto simp: work_next_def blPop_def split: list.splits sum.splits)

lemma step_current:
  assumes "\<not> registers uid e" and "current uid c s" and "step e s = (os, s')"
  shows "current uid c s'"
proof (cases e)
  case (Post payload)
  with assms show ?thesis
    by (auto simp: current_def split: if_splits prod.splits)
next
  case (Message c' data)
  with assms show ?thesis
    by (auto simp: current_def split: if_splits sum.splits
        dest: distinct_on_message on_message_other)
next
  case (Close c')
  with assms show ?thesis
    by (auto simp: current_def Map_get_on_close distinct_on_close split: if_splits)
next
  case (Transport c' st)
  with assms show ?thesis by (auto simp: current_def)
next
  case (Broker b)
  with assms show ?thesis by (auto simp: current_def)
next
  case Route
  with assms show ?thesis
    by (auto simp: current_def split: if_splits option.splits dest: route_next_registry)
next
  case Work
  with assms show ?thesis
    by (auto simp: current_def split: if_splits option.splits dest: work_next_registry)
qed

lemma route_next_sent:
  assumes "route_next s = Some (os, s')" and "Sent c' (JSON_stringify result) \<in> set os"
    and "property result ''userId'' = Inr uid"
  shows "Map_get (wsClients s) uid = Some c'"
  using assms
  by (auto simp: route_next_def blPop_def route_result_def JSON_parse_def JSON_stringify_def
      split: list.splits sum.splits wire.splits option.splits if_splits)

lemma work_next_sent: "work_next s = Some (os, s') \<Longrightarrow> Sent c' w \<notin> set os"
  by (auto simp: work_next_def blPop_def split: list.splits)

lemma step_sent:
  assumes "step e s = (os, s')" and "Sent c' (JSON_stringify result) \<in> set os"
    and "property result ''userId'' = Inr uid"
  shows "Map_get (wsClients s) uid = Some c'"
proof (cases e)
  case Route
  with assms show ?thesis
    by (auto split: if_splits option.splits dest: route_next_sent)
next
  case Work
  with assms show ?thesis
    by (auto split: if_splits option.splits dest: work_next_sent)
qed (use assms in \<open>auto split: if_splits prod.splits sum.splits\<close>)

lemma run_sent:
  assumes "\<forall>e \<in> set es. \<not> registers uid e" and "current uid c s" and "run es s = (os, s')"
    and "Sent c' (JSON_stringify result) \<in> set os" and "property result ''userId'' = Inr uid"
  shows "c' = c"
  using assms
proof (induction es arbitrary: s os s')
  case Nil
  then show ?case by simp
next
  case (Cons e es)
  obtain o1 s1 where st: "step e s = (o1, s1)" by (cases "step e s")
  obtain o2 s2 where rn: "run es s1 = (o2, s2)" by (cases "run es s1")
  from Cons.prems(3) st rn have os: "os = o1 @ o2" by simp
  from Cons.prems(1) have ne: "\<not> registers uid e" and nes: "\<forall>e \<in> set es. \<not> registers uid e"
    by simp_all
  have cur1: "current uid c s1"
    using step_current [OF ne Cons.prems(2) st] .
  from Cons.prems(4) os consider "Sent c' (JSON_stringify result) \<in> set o1"
    | "Sent c' (JSON_stringify result) \<in> set o2" by auto
  then show ?case
  proof cases
    case 1
    from step_sent [OF st 1 Cons.prems(5)] Cons.prems(2) show ?thesis
      by (auto simp: current_def)
  next
    case 2
    from Cons.IH [OF nes cur1 rn 2 Cons.prems(5)] show ?thesis .
  qed
qed


lemma step_distinct:
  assumes "distinct (map fst (wsClients s))" and "step e s = (os, s')"
  shows "distinct (map fst (wsClients s'))"
proof (cases e)
  case (Message c data)
  with assms show ?thesis
    by (auto split: if_splits sum.splits dest: distinct_on_message)
next
  case (Close c)
  with assms show ?thesis
    by (auto simp: distinct_on_close split: if_splits)
next
  case Route
  with assms show ?thesis
    by (auto split: if_splits option.splits dest: route_next_registry)
next
  case Work
  with assms show ?thesis
    by (auto split: if_splits option.splits dest: work_next_registry)
qed (use assms in \<open>auto split: if_splits prod.splits\<close>)

lemma run_distinct:
  "distinct (map fst (wsClients s)) \<Longrightarrow> run es s = (os, s') \<Longrightarrow>
   distinct (map fst (wsClients s'))"
proof (induction es arbitrary: s os s')
  case Nil
  then show ?case by simp
next
  case (Cons e es)
  obtain o1 s1 where st: "step e s = (o1, s1)" by (cases "step e s")
  obtain o2 s2 where rn: "run es s1 = (o2, s2)" by (cases "run es s1")
  from Cons.prems(2) st rn have "s' = s2" by simp
  with Cons.IH [OF step_distinct [OF Cons.prems(1) st] rn] show ?case by simp
qed

lemma started_distinct: "run es started = (os, s') \<Longrightarrow> distinct (map fst (wsClients s'))"
  by (rule run_distinct [of started]) (simp_all add: started_def)

lemma one_entry:
  "distinct (map fst m) \<Longrightarrow> map_of m k = Some v \<Longrightarrow> length (filter (\<lambda>e. fst e = k) m) = 1"
proof (induction m)
  case Nil
  then show ?case by simp
next
  case (Cons e m)
  show ?case
  proof (cases "fst e = k")
    case True
    with Cons.prems(1) have "k \<notin> fst ` set m" by auto
    then have "filter (\<lambda>e. fst e = k) m = []"
      by (auto simp: filter_empty_conv)
    with True show ?thesis by simp
  next
    case False
    with Cons show ?thesis by (cases e) auto
  qed
qed

text \<open>
  C2. A registration frame is an upsert and the last writer wins. For a registry with one
  entry per identity and a frame of connection \<open>c2\<close> that registers \<open>uid\<close>: the handler
  stores \<open>c2\<close> under \<open>uid\<close>; the registry still has one entry per identity, and one
  for \<open>uid\<close>; \<open>uid\<close> is looked up as \<open>c2\<close>, whatever it was mapped to before;
  registering again changes nothing; and in every run of the system that starts there and
  holds no further registration of \<open>uid\<close>, every result of \<open>uid\<close> that is sent is sent
  on \<open>c2\<close>, whatever the state of the connection registered before. The registry of
  every state the started system reaches has one entry per identity.
\<close>

theorem register_last_writer_wins:
  assumes "distinct (map fst m)"
    and "property msg ''type'' = Inr (Some ''register'')"
    and "property msg ''userId'' = Inr uid"
  shows "on_message c2 (JSON_stringify msg) m = Inr (Map_set uid c2 m)
       \<and> distinct (map fst (Map_set uid c2 m))
       \<and> length (filter (\<lambda>e. fst e = uid) (Map_set uid c2 m)) = 1
       \<and> Map_get (Map_set uid c2 m) uid = Some c2
       \<and> on_message c2 (JSON_stringify msg) (Map_set uid c2 m) = Inr (Map_set uid c2 m)
       \<and> (\<forall>es s os s' c' result.
            wsClients s = Map_set uid c2 m \<and> (\<forall>e \<in> set es. \<not> registers uid e)
            \<and> run es s = (os, s') \<and> Sent c' (JSON_stringify result) \<in> set os
            \<and> property result ''userId'' = Inr uid
            \<longrightarrow> c' = c2)
       \<and> (\<forall>es os s'. run es started = (os, s') \<longrightarrow> distinct (map fst (wsClients s')))"
proof -
  have msg: "on_message c (JSON_stringify msg) m' = Inr (Map_set uid c m')" for c m'
    using assms(2,3) by (simp add: on_message_def JSON_parse_def JSON_stringify_def)
  have d: "distinct (map fst (Map_set uid c2 m))"
    using assms(1) by (rule distinct_Map_set)
  have g: "Map_get (Map_set uid c2 m) uid = Some c2"
    by (simp add: Map_get_Map_set)
  have one: "length (filter (\<lambda>e. fst e = uid) (Map_set uid c2 m)) = 1"
    using d g by (simp add: one_entry Map_get_def)
  have idem: "Map_set uid c2 (Map_set uid c2 m) = Map_set uid c2 m"
    by (simp add: Map_set_def)
  have later: "c' = c2"
    if "wsClients s = Map_set uid c2 m" and "\<forall>e \<in> set es. \<not> registers uid e"
      and "run es s = (os, s')" and "Sent c' (JSON_stringify result) \<in> set os"
      and "property result ''userId'' = Inr uid"
    for es s os s' c' result
  proof -
    have "current uid c2 s"
      using that(1) d g by (simp add: current_def)
    from run_sent [OF that(2) this that(3) that(4) that(5)] show ?thesis .
  qed
  have reach: "distinct (map fst (wsClients s'))" if "run es started = (os, s')" for es os s'
    using that by (rule started_distinct)
  show ?thesis
    using msg d one g idem later reach by (simp only: simp_thms) blast
qed

theorem register_last_writer_wins_witness:
  "on_message 2 (JSON (JObject [(''type'', ''register''), (''userId'', ''u1'')])) [(Some ''u1'', 1)]
     = Inr [(Some ''u1'', 2)]
   \<and> fst (run [Route, Close 1, Route]
        \<lparr>wsClients = [(Some ''u1'', 2)], readyState = (\<lambda>_. OPEN), problems = [],
         results = [JSON (JObject [(''userId'', ''u1'')]), JSON (JObject [(''userId'', ''u1'')])],
         redis_up = True, backend = Running, worker = Running\<rparr>)
     = [Sent 2 (JSON (JObject [(''userId'', ''u1'')])), Sent 2 (JSON (JObject [(''userId'', ''u1'')]))]"
  using register_last_writer_wins
    [of "[(Some ''u1'', 1)]" "JObject [(''type'', ''register''), (''userId'', ''u1'')]" "Some ''u1''" 2]
  by (simp add: JSON_stringify_def property_def Map_set_def route_next_def blPop_def
      route_result_def JSON_parse_def Map_get_def on_close_def Map_forEach_def Map_delete_def)


section \<open>The result router\<close>

text \<open>
  C1. When the router takes a result whose \<^verbatim>\<open>userId\<close> is mapped to a connection \<open>c\<close>
  that is \<^verbatim>\<open>OPEN\<close>, that pass sends one frame, the serialized result, on \<open>c\<close>, and
  nothing on any other connection.
\<close>

theorem result_sent_to_registered_connection:
  assumes "backend s = Running"
    and "results s = JSON_stringify result # q"
    and "property result ''userId'' = Inr uid"
    and "Map_get (wsClients s) uid = Some c"
    and "readyState s c = OPEN"
  shows "route_result (readyState s) (wsClients s) (JSON_stringify result)
           = Inr [(c, JSON_stringify result)]
       \<and> step Route s = ([Sent c (JSON_stringify result)], s\<lparr>results := q\<rparr>)
       \<and> (\<forall>c' w. Sent c' w \<in> set (fst (step Route s)) \<longrightarrow> c' = c \<and> w = JSON_stringify result)
       \<and> listenForResults s
           = (case listenForResults (s\<lparr>results := q\<rparr>) of
                (os, s') \<Rightarrow> (Sent c (JSON_stringify result) # os, s'))"
proof -
  have r: "route_result (readyState s) (wsClients s) (JSON_stringify result)
             = Inr [(c, JSON_stringify result)]"
    using assms(3-5) by (simp add: route_result_def JSON_parse_def JSON_stringify_def)
  have n: "route_next s = Some ([Sent c (JSON_stringify result)], s\<lparr>results := q\<rparr>)"
    using assms(2) r by (simp add: route_next_def blPop_def)
  have l: "listenForResults s
           = (case listenForResults (s\<lparr>results := q\<rparr>) of
                (os, s') \<Rightarrow> (Sent c (JSON_stringify result) # os, s'))"
    using assms(1) n by (subst listenForResults.simps) simp
  show ?thesis
    using assms(1) r n l by simp
qed

theorem result_sent_to_registered_connection_witness:
  "step Route
     \<lparr>wsClients = [(Some ''u1'', 1), (Some ''u2'', 2)], readyState = (\<lambda>_. OPEN),
      problems = [], results = [JSON (JObject [(''userId'', ''u1''), (''status'', ''ok'')])],
      redis_up = True, backend = Running, worker = Running\<rparr>
   = ([Sent 1 (JSON (JObject [(''userId'', ''u1''), (''status'', ''ok'')]))],
      \<lparr>wsClients = [(Some ''u1'', 1), (Some ''u2'', 2)], readyState = (\<lambda>_. OPEN),
       problems = [], results = [],
       redis_up = True, backend = Running, worker = Running\<rparr>)"
  using result_sent_to_registered_connection
    [of "\<lparr>wsClients = [(Some ''u1'', 1), (Some ''u2'', 2)], readyState = (\<lambda>_. OPEN),
      problems = [], results = [JSON (JObject [(''userId'', ''u1''), (''status'', ''ok'')])],
      redis_up = True, backend = Running, worker = Running\<rparr>"
      "JObject [(''userId'', ''u1''), (''status'', ''ok'')]" "[]" "Some ''u1''" 1]
  by (simp add: JSON_stringify_def property_def Map_get_def)

text \<open>
  C4. When the router takes a result whose \<^verbatim>\<open>userId\<close> is mapped to no connection, or to
  one that is not \<^verbatim>\<open>OPEN\<close>, the pass sends nothing and throws nothing: the result is gone
  from the list and kept nowhere, the registry and the rest of the state are as before,
  the backend keeps running, and \<^verbatim>\<open>listenForResults\<close> goes on with the next result.
\<close>

theorem unroutable_result_is_dropped:
  assumes "backend s = Running"
    and "results s = JSON_stringify result # q"
    and "property result ''userId'' = Inr uid"
    and "Map_get (wsClients s) uid = None
         \<or> (\<exists>c. Map_get (wsClients s) uid = Some c \<and> readyState s c \<noteq> OPEN)"
  shows "route_result (readyState s) (wsClients s) (JSON_stringify result) = Inr []
       \<and> step Route s = ([], s\<lparr>results := q\<rparr>)
       \<and> wsClients (snd (step Route s)) = wsClients s
       \<and> backend (snd (step Route s)) = Running
       \<and> listenForResults s = listenForResults (s\<lparr>results := q\<rparr>)"
proof -
  have r: "route_result (readyState s) (wsClients s) (JSON_stringify result) = Inr []"
    using assms(3,4) by (auto simp add: route_result_def JSON_parse_def JSON_stringify_def)
  have n: "route_next s = Some ([], s\<lparr>results := q\<rparr>)"
    using assms(2) r by (simp add: route_next_def blPop_def)
  have "listenForResults s = listenForResults (s\<lparr>results := q\<rparr>)"
    using assms(1) n by (subst listenForResults.simps) simp
  then show ?thesis
    using assms(1) r n by simp
qed

theorem unroutable_result_is_dropped_witness:
  "step Route
     \<lparr>wsClients = [(Some ''u1'', 1)], readyState = (\<lambda>_. CLOSING),
      problems = [], results = [JSON (JObject [(''userId'', ''u1'')]), JSON (JObject [(''userId'', ''u2'')])],
      redis_up = True, backend = Running, worker = Running\<rparr>
   = ([],
      \<lparr>wsClients = [(Some ''u1'', 1)], readyState = (\<lambda>_. CLOSING),
       problems = [], results = [JSON (JObject [(''userId'', ''u2'')])],
       redis_up = True, backend = Running, worker = Running\<rparr>)"
  using unroutable_result_is_dropped
    [of "\<lparr>wsClients = [(Some ''u1'', 1)], readyState = (\<lambda>_. CLOSING),
      problems = [], results = [JSON (JObject [(''userId'', ''u1'')]), JSON (JObject [(''userId'', ''u2'')])],
      redis_up = True, backend = Running, worker = Running\<rparr>"
      "JObject [(''userId'', ''u1'')]" "[JSON (JObject [(''userId'', ''u2'')])]" "Some ''u1''"]
  by (simp add: JSON_stringify_def property_def Map_get_def)

section \<open>The submission route\<close>

text \<open>
  C5. The three outcomes of \<^verbatim>\<open>POST /submit\<close>. A required property counts as missing
  when the handler's test \<^verbatim>\<open>!payload.k\<close> holds (the property is absent, or the empty
  string); the handler's own answer names that case \<^verbatim>\<open>Missing fields\<close>. If
  \<^verbatim>\<open>userId\<close>, \<^verbatim>\<open>username\<close> or \<^verbatim>\<open>problemTd\<close> is missing, the answer is 400 and the list
  \<^verbatim>\<open>problems\<close> is as before; otherwise, if the write goes through, the job is appended
  and the answer is 200; otherwise the answer is 500 and the list is as before.
\<close>

theorem submit_outcomes:
  "(falsy (map_of payload ''userId'') \<or> falsy (map_of payload ''username'')
      \<or> falsy (map_of payload ''problemTd'')
     \<longrightarrow> submit up payload q = (\<lparr>status = 400, message = ''Missing fields''\<rparr>, q))
   \<and> (\<not> falsy (map_of payload ''userId'') \<and> \<not> falsy (map_of payload ''username'')
      \<and> \<not> falsy (map_of payload ''problemTd'') \<and> up
     \<longrightarrow> submit up payload q
         = (\<lparr>status = 200, message = check_mark @ '' Submitted''\<rparr>,
            q @ [JSON_stringify (JObject payload)]))
   \<and> (\<not> falsy (map_of payload ''userId'') \<and> \<not> falsy (map_of payload ''username'')
      \<and> \<not> falsy (map_of payload ''problemTd'') \<and> \<not> up
     \<longrightarrow> submit up payload q = (\<lparr>status = 500, message = ''Server error''\<rparr>, q))
   \<and> (map_of payload ''userId'' = None \<or> map_of payload ''username'' = None
      \<or> map_of payload ''problemTd'' = None
     \<longrightarrow> status (fst (submit up payload q)) = 400 \<and> snd (submit up payload q) = q)"
  by (simp add: submit_def submit_try_def rPush_def falsy_def)

theorem submit_outcomes_witness:
  "submit True [(''userId'', ''u1''), (''problemTd'', ''two_sum'')] []
     = (\<lparr>status = 400, message = ''Missing fields''\<rparr>, [])
   \<and> submit True [(''userId'', ''u1''), (''username'', ''alice''), (''problemTd'', ''two_sum'')] []
     = (\<lparr>status = 200, message = check_mark @ '' Submitted''\<rparr>,
        [JSON (JObject [(''userId'', ''u1''), (''username'', ''alice''), (''problemTd'', ''two_sum'')])])
   \<and> submit False [(''userId'', ''u1''), (''username'', ''alice''), (''problemTd'', ''two_sum'')] []
     = (\<lparr>status = 500, message = ''Server error''\<rparr>, [])"
  using submit_outcomes [of "[(''userId'', ''u1''), (''problemTd'', ''two_sum'')]" True "[]"]
    submit_outcomes
      [of "[(''userId'', ''u1''), (''username'', ''alice''), (''problemTd'', ''two_sum'')]" True "[]"]
    submit_outcomes
      [of "[(''userId'', ''u1''), (''username'', ''alice''), (''problemTd'', ''two_sum'')]" False "[]"]
  by (simp add: falsy_def JSON_stringify_def)

section \<open>The worker\<close>

lemma map_of_js_literal:
  "distinct (map fst kvs) \<Longrightarrow>
   map_of (js_literal kvs) k = (case map_of kvs k of None \<Rightarrow> None | Some v \<Rightarrow> v)"
proof (induction kvs rule: js_literal.induct)
  case 1
  then show ?case by simp
next
  case (2 k' kvs)
  then have "map_of kvs k' = None"
    by (simp add: map_of_eq_None_iff)
  with 2 show ?case by (auto split: option.splits)
next
  case (3 k' v kvs)
  then show ?case by simp
qed

text \<open>
  C6. A pass of the worker over a job (a JSON value other than \<^verbatim>\<open>null\<close>), with the
  broker reachable, takes the job from \<^verbatim>\<open>problems\<close>, appends exactly one result to
  \<^verbatim>\<open>results\<close> and goes on with the loop. The result's \<^verbatim>\<open>userId\<close>, \<^verbatim>\<open>username\<close> and
  \<^verbatim>\<open>problemTd\<close> are the job's, and its \<^verbatim>\<open>status\<close> is a string that is not empty.
\<close>

theorem worker_produces_one_result:
  assumes "worker s = Running" and "redis_up s"
    and "problems s = JSON_stringify payload # q"
    and "payload \<noteq> JNull"
  shows "\<exists>result.
           step Work s
             = ([Dequeued (JSON_stringify payload)],
                s\<lparr>problems := q, results := results s @ [JSON_stringify (JObject result)]\<rparr>)
         \<and> property (JObject result) ''userId'' = property payload ''userId''
         \<and> property (JObject result) ''username'' = property payload ''username''
         \<and> property (JObject result) ''problemTd'' = property payload ''problemTd''
         \<and> (\<exists>st. property (JObject result) ''status'' = Inr (Some st) \<and> st \<noteq> [])
         \<and> main_loop s
             = (case main_loop (s\<lparr>problems := q,
                                  results := results s @ [JSON_stringify (JObject result)]\<rparr>) of
                  (os, s') \<Rightarrow> (Dequeued (JSON_stringify payload) # os, s'))"
proof -
  obtain uid uname pid where p: "property payload ''userId'' = Inr uid"
    "property payload ''username'' = Inr uname" "property payload ''problemTd'' = Inr pid"
    using assms(4) by (cases payload) (simp_all add: property_def)
  define result where "result = js_literal
     [(''userId'', uid), (''username'', uname), (''problemTd'', pid),
      (''status'', Some (''Accepted '' @ check_mark))]"
  have job: "process_job (redis_up s) (JSON_stringify payload) (results s)
               = Inr (results s @ [JSON_stringify (JObject result)])"
    using assms(2) p
    by (simp add: process_job_def JSON_parse_def JSON_stringify_def rPush_def result_def)
  have nxt: "work_next s
               = Some ([Dequeued (JSON_stringify payload)],
                       s\<lparr>problems := q, results := results s @ [JSON_stringify (JObject result)]\<rparr>)"
    using assms(3) job by (simp add: work_next_def blPop_def)
  have fields: "map_of result ''userId'' = uid" "map_of result ''username'' = uname"
    "map_of result ''problemTd'' = pid"
    "map_of result ''status'' = Some (''Accepted '' @ check_mark)"
    unfolding result_def by (simp_all add: map_of_js_literal split: option.splits)
  have loop: "main_loop s
             = (case main_loop (s\<lparr>problems := q,
                                  results := results s @ [JSON_stringify (JObject result)]\<rparr>) of
                  (os, s') \<Rightarrow> (Dequeued (JSON_stringify payload) # os, s'))"
    using assms(1) nxt by (subst main_loop.simps) simp
  show ?thesis
    using assms(1) nxt fields p loop
    by (intro exI [of _ result]) (simp add: property_def)
qed


theorem worker_produces_one_result_witness:
  "step Work
     \<lparr>wsClients = [], readyState = (\<lambda>_. OPEN),
      problems = [JSON (JObject [(''userId'', ''u1''), (''username'', ''alice''),
                    (''problemTd'', ''two_sum''), (''code'', ''...''), (''language'', ''js'')])],
      results = [], redis_up = True, backend = Running, worker = Running\<rparr>
   = ([Dequeued (JSON (JObject [(''userId'', ''u1''), (''username'', ''alice''),
                    (''problemTd'', ''two_sum''), (''code'', ''...''), (''language'', ''js'')]))],
      \<lparr>wsClients = [], readyState = (\<lambda>_. OPEN), problems = [],
       results = [JSON (JObject [(''userId'', ''u1''), (''username'', ''alice''),
                    (''problemTd'', ''two_sum''), (''status'', ''Accepted '' @ check_mark)])],
       redis_up = True, backend = Running, worker = Running\<rparr>)"
  using worker_produces_one_result
    [of "\<lparr>wsClients = [], readyState = (\<lambda>_. OPEN),
      problems = [JSON (JObject [(''userId'', ''u1''), (''username'', ''alice''),
                    (''problemTd'', ''two_sum''), (''code'', ''...''), (''language'', ''js'')])],
      results = [], redis_up = True, backend = Running, worker = Running\<rparr>"
      "JObject [(''userId'', ''u1''), (''username'', ''alice''),
                    (''problemTd'', ''two_sum''), (''code'', ''...''), (''language'', ''js'')]" "[]"]
  by (simp add: JSON_stringify_def work_next_def blPop_def process_job_def JSON_parse_def
      property_def rPush_def)

text \<open>
  C8. What the worker does when a pass fails. Its loop has no \<^verbatim>\<open>try\<close>: when the write
  of a result is rejected (the broker went away after the job was taken), or the text
  taken from \<^verbatim>\<open>problems\<close> is not JSON, the failure leaves \<^verbatim>\<open>main\<close>, whose promise nobody
  awaits. The loop has ended: the next job stays in the list, also once the broker is
  back, and no result is written.
\<close>

theorem worker_stops_at_first_failure:
  "run [Broker False, Work, Broker True, Work]
     (started\<lparr>problems :=
        [JSON (JObject [(''userId'', ''u1''), (''username'', ''alice''), (''problemTd'', ''p1'')]),
         JSON (JObject [(''userId'', ''u2''), (''username'', ''bob''), (''problemTd'', ''p2'')])]\<rparr>)
   = ([Dequeued (JSON (JObject
         [(''userId'', ''u1''), (''username'', ''alice''), (''problemTd'', ''p1'')]))],
      started\<lparr>problems :=
        [JSON (JObject [(''userId'', ''u2''), (''username'', ''bob''), (''problemTd'', ''p2'')])],
        worker := Crashed BrokerError\<rparr>)
   \<and> main_loop (started\<lparr>problems :=
        [NotJSON ''oops'',
         JSON (JObject [(''userId'', ''u2''), (''username'', ''bob''), (''problemTd'', ''p2'')])]\<rparr>)
   = ([Dequeued (NotJSON ''oops'')],
      started\<lparr>problems :=
        [JSON (JObject [(''userId'', ''u2''), (''username'', ''bob''), (''problemTd'', ''p2'')])],
        worker := Crashed SyntaxError\<rparr>)"
  by (simp add: started_def work_next_def blPop_def process_job_def JSON_parse_def property_def
      rPush_def JSON_stringify_def main_loop.simps)

section \<open>The job queue\<close>

lemma dequeued_append: "dequeued (os @ os') = dequeued os @ dequeued os'"
  by (induction os rule: dequeued.induct) simp_all

lemma enqueued_append: "enqueued (os @ os') = enqueued os @ enqueued os'"
  by (induction os rule: enqueued.induct) simp_all

lemma submit_queue:
  "submit up payload q = (r, q') \<Longrightarrow>
   q' = (if status r = 200 then q @ [JSON_stringify (JObject payload)] else q)"
  by (auto simp: submit_def submit_try_def rPush_def split: if_splits)

lemma work_next_queue:
  "work_next s = Some (os, s') \<Longrightarrow> dequeued os @ problems s' = problems s \<and> enqueued os = []"
  by (auto simp: work_next_def blPop_def split: list.splits sum.splits)

lemma route_next_queue:
  "route_next s = Some (os, s') \<Longrightarrow> dequeued os = [] \<and> enqueued os = [] \<and> problems s' = problems s"
proof -
  have sent: "dequeued (map (\<lambda>(c, w). Sent c w) out) = [] \<and> enqueued (map (\<lambda>(c, w). Sent c w) out) = []" for out
    by (induction out) auto
  show "route_next s = Some (os, s') \<Longrightarrow> ?thesis"
    using sent by (auto simp: route_next_def blPop_def split: list.splits sum.splits)
qed

lemma step_queue:
  "step e s = (os, s') \<Longrightarrow> dequeued os @ problems s' = problems s @ enqueued os"
proof (cases e)
  case (Post payload)
  assume "step e s = (os, s')"
  with Post show ?thesis
    by (auto split: if_splits prod.splits dest: submit_queue)
next
  case (Message c data)
  assume "step e s = (os, s')"
  with Message show ?thesis
    by (auto split: if_splits sum.splits)
next
  case Route
  assume "step e s = (os, s')"
  with Route show ?thesis
    by (auto split: if_splits option.splits dest: route_next_queue)
next
  case Work
  assume "step e s = (os, s')"
  with Work show ?thesis
    by (auto split: if_splits option.splits dest: work_next_queue)
qed (auto split: if_splits)

lemma run_queue:
  "run es s = (os, s') \<Longrightarrow> dequeued os @ problems s' = problems s @ enqueued os"
proof (induction es arbitrary: s os s')
  case Nil
  then show ?case by simp
next
  case (Cons e es)
  obtain o1 s1 where st: "step e s = (o1, s1)" by (cases "step e s")
  obtain o2 s2 where rn: "run es s1 = (o2, s2)" by (cases "run es s1")
  from Cons.prems st rn have os: "os = o1 @ o2" and s': "s' = s2" by simp_all
  have "dequeued o1 @ dequeued o2 @ problems s2 = dequeued o1 @ problems s1 @ enqueued o2"
    using Cons.IH [OF rn] by simp
  also have "\<dots> = problems s @ enqueued o1 @ enqueued o2"
    using step_queue [OF st] by (metis append.assoc)
  finally show ?case
    by (simp add: os s' dequeued_append enqueued_append)
qed

text \<open>
  C7. The job queue is first in, first out. In every run of the system (requests, worker
  passes and everything else, in any interleaving), the jobs the worker has taken, in the
  order it took them, followed by the jobs still waiting, are the jobs that were waiting
  at the start followed by the jobs enqueued during the run, in the order they were
  enqueued. So the jobs taken are an initial segment of the jobs in enqueueing order: the
  k-th job the worker takes is the k-th job that was enqueued.
\<close>

theorem job_queue_is_fifo:
  assumes "run es s = (os, s')"
  shows "dequeued os @ problems s' = problems s @ enqueued os
       \<and> prefix (dequeued os) (problems s @ enqueued os)
       \<and> (\<forall>k < length (dequeued os). dequeued os ! k = (problems s @ enqueued os) ! k)"
proof -
  have eq: "dequeued os @ problems s' = problems s @ enqueued os"
    using assms by (rule run_queue)
  then have pre: "prefix (dequeued os) (problems s @ enqueued os)"
    by (metis prefixI)
  have "\<forall>k < length (dequeued os). dequeued os ! k = (problems s @ enqueued os) ! k"
    using eq by (metis nth_append)
  with eq pre show ?thesis by simp
qed

theorem job_queue_is_fifo_witness:
  "dequeued (fst (run
     [Post [(''userId'', ''u1''), (''username'', ''alice''), (''problemTd'', ''p1'')],
      Post [(''userId'', ''u2''), (''username'', ''bob''), (''problemTd'', ''p2'')],
      Work,
      Post [(''userId'', ''u1''), (''username'', ''alice''), (''problemTd'', ''p3'')],
      Work] started))
   = [JSON (JObject [(''userId'', ''u1''), (''username'', ''alice''), (''problemTd'', ''p1'')]),
      JSON (JObject [(''userId'', ''u2''), (''username'', ''bob''), (''problemTd'', ''p2'')])]
   \<and> problems (snd (run
     [Post [(''userId'', ''u1''), (''username'', ''alice''), (''problemTd'', ''p1'')],
      Post [(''userId'', ''u2''), (''username'', ''bob''), (''problemTd'', ''p2'')],
      Work,
      Post [(''userId'', ''u1''), (''username'', ''alice''), (''problemTd'', ''p3'')],
      Work] started))
   = [JSON (JObject [(''userId'', ''u1''), (''username'', ''alice''), (''problemTd'', ''p3'')])]"
  using job_queue_is_fifo
    [of "[Post [(''userId'', ''u1''), (''username'', ''alice''), (''problemTd'', ''p1'')],
      Post [(''userId'', ''u2''), (''username'', ''bob''), (''problemTd'', ''p2'')],
      Work,
      Post [(''userId'', ''u1''), (''username'', ''alice''), (''problemTd'', ''p3'')],
      Work]" started
      "fst (run
     [Post [(''userId'', ''u1''), (''username'', ''alice''), (''problemTd'', ''p1'')],
      Post [(''userId'', ''u2''), (''username'', ''bob''), (''problemTd'', ''p2'')],
      Work,
      Post [(''userId'', ''u1''), (''username'', ''alice''), (''problemTd'', ''p3'')],
      Work] started)"
      "snd (run
     [Post [(''userId'', ''u1''), (''username'', ''alice''), (''problemTd'', ''p1'')],
      Post [(''userId'', ''u2''), (''username'', ''bob''), (''problemTd'', ''p2'')],
      Work,
      Post [(''userId'', ''u1''), (''username'', ''alice''), (''problemTd'', ''p3'')],
      Work] started)"]
  by (simp add: started_def submit_def submit_try_def rPush_def falsy_def JSON_stringify_def
      work_next_def blPop_def process_job_def JSON_parse_def property_def)

section \<open>Frames that are not a registration\<close>

text \<open>
  C9. What the message handler does with a frame that is not JSON, or that is the JSON
  \<^verbatim>\<open>null\<close>. The handler has no \<^verbatim>\<open>try\<close>: \<^verbatim>\<open>JSON.parse\<close> (or the read of \<^verbatim>\<open>msg.type\<close>)
  throws out of it, nothing is logged, and the exception ends the backend; the
  registration that follows on the same connection is not handled.
\<close>

theorem malformed_frame_ends_the_backend:
  "on_message 1 (NotJSON ''hello'') [] = Inl SyntaxError
   \<and> on_message 1 (JSON JNull) [] = Inl TypeError
   \<and> run [Message 1 (NotJSON ''hello''),
           Message 1 (JSON (JObject
             [(''type'', ''register''), (''userId'', ''u1''), (''username'', ''alice'')]))]
        started
     = ([], started\<lparr>backend := Crashed SyntaxError\<rparr>)"
  by (simp add: started_def on_message_def JSON_parse_def property_def)


end
